theory Spec2Isabelle
  imports Complex_Main
begin

section \<open>The anchor engine\<close>

text \<open>
  JavaScript strings are modelled as \<^typ>\<open>string\<close>, one \<^typ>\<open>char\<close> per code unit, for the
  code units \<open>0x00\<close> to \<open>0xFF\<close> (Basic Latin and Latin-1). On these
  \<open>String.prototype.toLowerCase\<close> works character by character: the capital letters are
  \<open>A\<close> to \<open>Z\<close> (\<open>0x41\<close> to \<open>0x5A\<close>) and \<open>0xC0\<close> to \<open>0xDE\<close> without the multiplication sign
  \<open>0xD7\<close>, each has its small letter \<open>0x20\<close> above it, and every other character is kept.
  Numbers that hold indices and lengths are \<^typ>\<open>int\<close>; a quotient such as \<open>len / 2\<close> is a
  \<^typ>\<open>rat\<close>, on which \<open>Math.floor\<close> and \<open>Math.ceil\<close> are \<^const>\<open>floor\<close> and
  \<^const>\<open>ceiling\<close>.
\<close>

definition lower_char :: "char \<Rightarrow> char" where
  "lower_char c =
     (let n = (of_char c :: nat)
      in if (65 \<le> n \<and> n \<le> 90) \<or> (192 \<le> n \<and> n \<le> 222 \<and> n \<noteq> 215)
         then char_of (n + 32) else c)"

definition toLowerCase :: "string \<Rightarrow> string" where
  "toLowerCase s = map lower_char s"

text \<open>
  The field \<open>lastAnchorChar\<close> holds \<open>null\<close> (here \<^const>\<open>None\<close>) or a string. A
  condition \<open>if (v)\<close> on such a value holds for a non-empty string only.
\<close>

record AnchorEngine =
  lastAnchorChar :: "string option"

record PivotResult =
  pivotIndex :: int
  anchorChar :: "string option"

definition truthy :: "string option \<Rightarrow> bool" where
  "truthy v = (case v of None \<Rightarrow> False | Some s \<Rightarrow> s \<noteq> [])"

text \<open>\<open>word[i]\<close>: the one-character string at index \<open>i\<close>, \<open>undefined\<close> (\<^const>\<open>None\<close>)
  out of range.\<close>

definition str_index :: "string \<Rightarrow> int \<Rightarrow> string option" where
  "str_index word i =
     (if 0 \<le> i \<and> i < int (length word) then Some [word ! nat i] else None)"

definition reset :: "AnchorEngine \<Rightarrow> AnchorEngine" where
  "reset e = e\<lparr>lastAnchorChar := None\<rparr>"

text \<open>The loop \<open>for (let i = 0; i < len; i++) if (...) matches.push(i)\<close>.\<close>

definition find_matches :: "string \<Rightarrow> string \<Rightarrow> nat list" where
  "find_matches word a =
     filter (\<lambda>i. toLowerCase [word ! i] = toLowerCase a) [0..<length word]"

text \<open>The callback of \<open>matches.reduce\<close>.\<close>

definition closer :: "int \<Rightarrow> nat \<Rightarrow> nat \<Rightarrow> nat" where
  "closer idealCenter prev cur =
     (if \<bar>int cur - idealCenter\<bar> < \<bar>int prev - idealCenter\<bar> then cur else prev)"

text \<open>
  Strategy 1. The result is the value of \<open>pivotIndex\<close> after the first \<open>if\<close> block:
  still \<open>-1\<close> when there is no truthy remembered anchor or no match. \<open>reduce\<close> without a
  start value runs on a non-empty array only, from its first element.
\<close>

definition sticky :: "string \<Rightarrow> string option \<Rightarrow> int" where
  "sticky word anchor =
     (if truthy anchor then
        (case find_matches word (the anchor) of
           [] \<Rightarrow> - 1
         | m # ms \<Rightarrow>
             (let idealCenter = \<lfloor>(of_int (int (length word)) :: rat) / 2\<rfloor>
              in int (foldl (closer idealCenter) m ms)))
      else - 1)"

text \<open>
  Strategy 2. The source first assigns \<open>pivotIndex\<close> from a table of length ranges and then
  overwrites it with \<open>Math.ceil(len / 2) - 1\<close>, clamped at \<open>0\<close>; both assignments are kept.
\<close>

definition orp_table :: "int \<Rightarrow> int" where
  "orp_table len =
     (if len \<le> 1 then 0
      else if len \<ge> 2 \<and> len \<le> 5 then 1
      else if len \<ge> 6 \<and> len \<le> 9 then 2
      else if len \<ge> 10 \<and> len \<le> 13 then 3
      else 4)"

definition fallback :: "int \<Rightarrow> int" where
  "fallback len =
     (let pivotIndex = orp_table len;
          pivotIndex = \<lceil>(of_int len :: rat) / 2\<rceil> - 1
      in if pivotIndex < 0 then 0 else pivotIndex)"

text \<open>\<open>process\<close> returns the result and the engine after the call.\<close>

definition process :: "string \<Rightarrow> AnchorEngine \<Rightarrow> PivotResult \<times> AnchorEngine" where
  "process word e =
     (if word = [] then (\<lparr>pivotIndex = 0, anchorChar = Some []\<rparr>, e)
      else
        (let len = int (length word);
             pivotIndex = sticky word (lastAnchorChar e);
             pivotIndex = (if pivotIndex = - 1 then fallback len else pivotIndex);
             e' = e\<lparr>lastAnchorChar := str_index word pivotIndex\<rparr>
         in (\<lparr>pivotIndex = pivotIndex, anchorChar = lastAnchorChar e'\<rparr>, e')))"

section \<open>The application: playback and analytics\<close>

text \<open>
  The class \<open>App\<close> of \<open>main.js\<close>. Rates and delays are JavaScript numbers; they are
  modelled as exact rationals, so a quotient \<open>60000 / wpm\<close> is the JavaScript one for a
  rate other than \<open>0\<close> up to the rounding of doubles. The sample rate and the timestamps
  are integers. Writes to the document (the displayed chunk, the slider, the statistics and
  the chart) are left out; the parts of the state that the timing and the samples depend on
  are kept. A sample is the object \<open>{words, wpm, timestamp}\<close> that \<open>runLoop\<close> pushes; its
  first two fields are named \<open>sample_words\<close> and \<open>sample_wpm\<close> here, since \<open>words\<close> and \<open>wpm\<close>
  are fields of \<open>App\<close> as well.
\<close>

record SessionSample =
  sample_words :: string
  sample_wpm :: int
  timestamp :: int

text \<open>
  The field \<open>timer\<close> is the delay of the pending \<open>setTimeout\<close> callback, \<^const>\<open>None\<close> when
  none is pending. \<open>reportHidden\<close> is the class \<open>hidden\<close> of the report modal.
\<close>

record App =
  engine :: AnchorEngine
  words :: "string list"
  currentIndex :: nat
  isPlaying :: bool
  wpm :: rat
  chunkSize :: nat
  timer :: "rat option"
  sessionData :: "SessionSample list"
  sessionStartTime :: int
  reportHidden :: bool

datatype js_error = TypeError

text \<open>\<open>chunk.join(' ')\<close>.\<close>

fun join_words :: "string list \<Rightarrow> string" where
  "join_words [] = []"
| "join_words [w] = w"
| "join_words (w # ws) = w @ '' '' @ join_words ws"

text \<open>\<open>Math.round\<close>: the nearest integer, a half rounded up.\<close>

definition Math_round :: "rat \<Rightarrow> int" where
  "Math_round x = \<lfloor>x + 1 / 2\<rfloor>"

text \<open>\<open>lastWord.endsWith(c)\<close> for a one-character string \<open>c\<close>.\<close>

definition endsWith :: "string \<Rightarrow> char \<Rightarrow> bool" where
  "endsWith w c = (w \<noteq> [] \<and> last w = c)"

definition accelerationRate :: rat where
  "accelerationRate = 1 / 2"

definition stop :: "App \<Rightarrow> App" where
  "stop s = s\<lparr>isPlaying := False, timer := None\<rparr>"

definition showReport :: "App \<Rightarrow> App" where
  "showReport s = s\<lparr>reportHidden := False\<rparr>"

definition renderChunk :: "string list \<Rightarrow> App \<Rightarrow> App" where
  "renderChunk ws s =
     (let fullString = join_words ws;
          (r, e') = process fullString (engine s)
      in s\<lparr>engine := e'\<rparr>)"

text \<open>
  \<open>runLoop\<close> at clock reading \<open>now\<close>. The chunk is empty only when \<open>chunkSize\<close> is \<open>0\<close>; then
  \<open>chunk[chunk.length - 1]\<close> is \<open>undefined\<close> and \<open>lastWord.endsWith\<close> throws a
  \<open>TypeError\<close>, which nothing catches: the model stops there with \<^const>\<open>Inl\<close>.
\<close>

definition runLoop :: "int \<Rightarrow> App \<Rightarrow> js_error + App" where
  "runLoop now s =
     (if \<not> isPlaying s then Inr s
      else if currentIndex s \<ge> length (words s) then Inr (showReport (stop s))
      else
        (let chunk = take (chunkSize s) (drop (currentIndex s) (words s));
             s = s\<lparr>currentIndex := currentIndex s + chunkSize s\<rparr>;
             s = renderChunk chunk s;
             s = s\<lparr>wpm := min 1200 (wpm s + accelerationRate * of_nat (length chunk))\<rparr>;
             s = s\<lparr>sessionData := sessionData s @
                   [\<lparr>sample_words = join_words chunk,
                     sample_wpm = Math_round (wpm s),
                     timestamp = now - sessionStartTime s\<rparr>]\<rparr>;
             msPerWord = 60000 / wpm s;
             delay = msPerWord * of_nat (length chunk)
         in if chunk = [] then Inl TypeError
            else
              (let lastWord = last chunk;
                   extraDelay =
                     (if endsWith lastWord CHR ''.'' \<or> endsWith lastWord CHR ''!'' \<or>
                         endsWith lastWord CHR ''?'' then msPerWord * (3 / 2)
                      else if endsWith lastWord CHR '','' \<or> endsWith lastWord CHR '';''
                        then msPerWord * (1 / 2)
                      else 0)
               in Inr (s\<lparr>timer := Some (delay + extraDelay)\<rparr>))))"

text \<open>\<open>start\<close> reads the clock (\<open>now\<close>) and calls \<open>runLoop\<close>, which reads it again (\<open>now'\<close>).\<close>

definition start :: "int \<Rightarrow> int \<Rightarrow> App \<Rightarrow> js_error + App" where
  "start now now' s = runLoop now' (s\<lparr>isPlaying := True, sessionStartTime := now\<rparr>)"

text \<open>
  The \<open>input\<close> handler of the rate slider; \<open>v\<close> is \<open>parseInt(e.target.value)\<close>.
\<close>

definition wpmSlider_input :: "int \<Rightarrow> int \<Rightarrow> int \<Rightarrow> App \<Rightarrow> js_error + App" where
  "wpmSlider_input v now now' s =
     (let s = s\<lparr>wpm := of_int v\<rparr>
      in if isPlaying s then start now now' (stop s) else Inr s)"

text \<open>
  The two branches of the \<open>keydown\<close> handler that change the rate, taken when the focus is
  not in the text input. \<open>updateWPMFromLogic\<close> writes the rate to the document and has an
  empty branch for \<open>isPlaying\<close>; it leaves the state as it is.
\<close>

definition updateWPMFromLogic :: "App \<Rightarrow> App" where
  "updateWPMFromLogic s = s"

definition keydown_ArrowRight :: "App \<Rightarrow> App" where
  "keydown_ArrowRight s = updateWPMFromLogic (s\<lparr>wpm := min 1000 (wpm s + 50)\<rparr>)"

definition keydown_ArrowLeft :: "App \<Rightarrow> App" where
  "keydown_ArrowLeft s = updateWPMFromLogic (s\<lparr>wpm := max 60 (wpm s - 50)\<rparr>)"

text \<open>
  The pending timer fires at clock reading \<open>now\<close> and calls \<open>runLoop\<close>; \<open>run_ticks\<close> is a
  sequence of such firings, one per clock reading of the list.
\<close>

definition fire :: "int \<Rightarrow> App \<Rightarrow> js_error + App" where
  "fire now s = (case timer s of None \<Rightarrow> Inr s | Some d \<Rightarrow> runLoop now (s\<lparr>timer := None\<rparr>))"

fun run_ticks :: "int list \<Rightarrow> App \<Rightarrow> js_error + App" where
  "run_ticks [] s = Inr s"
| "run_ticks (t # ts) s = (case fire t s of Inl e \<Rightarrow> Inl e | Inr s' \<Rightarrow> run_ticks ts s')"

text \<open>
  A run without interruption from \<open>start\<close>: \<open>start\<close> shows the first chunk, then the timer
  fires once per clock reading of the list and nothing else happens in between.
\<close>

definition run :: "int \<Rightarrow> int \<Rightarrow> int list \<Rightarrow> App \<Rightarrow> js_error + App" where
  "run now now' ts s = (case start now now' s of Inl e \<Rightarrow> Inl e | Inr s1 \<Rightarrow> run_ticks ts s1)"

text \<open>
  \<open>renderHeatmap\<close>. \<open>Math.max(...rates)\<close> and \<open>Math.min(...rates)\<close> are folds from the
  first rate; on an empty series \<open>forEach\<close> runs no callback and the two extrema are not
  used. \<open>d || 1\<close> is \<open>1\<close> when \<open>d\<close> is \<open>0\<close> and \<open>d\<close> otherwise. The quotient of the
  normalisation is \<open>js_div\<close>: a division by \<open>0\<close> gives \<open>NaN\<close> or an infinity in JavaScript,
  here \<^const>\<open>None\<close>, and a hue computed from it is \<^const>\<open>None\<close> as well. The result lists,
  for each sample, the text of its \<open>span\<close> and the hue of its colour.
\<close>

definition js_div :: "rat \<Rightarrow> rat \<Rightarrow> rat option" where
  "js_div x y = (if y = 0 then None else Some (x / y))"

definition or_1 :: "int \<Rightarrow> int" where
  "or_1 d = (if d \<noteq> 0 then d else 1)"

definition normalized :: "int \<Rightarrow> int \<Rightarrow> int \<Rightarrow> rat option" where
  "normalized item_wpm minWpm maxWpm =
     js_div (of_int (item_wpm - minWpm)) (of_int (or_1 (maxWpm - minWpm)))"

definition renderHeatmap :: "SessionSample list \<Rightarrow> (string \<times> rat option) list" where
  "renderHeatmap sd =
     (case map sample_wpm sd of
        [] \<Rightarrow> []
      | r # rs \<Rightarrow>
          (let maxWpm = foldl max r rs;
               minWpm = foldl min r rs
           in map (\<lambda>item. (sample_words item @ '' '',
                             map_option (\<lambda>n. 200 - n * 200)
                               (normalized (sample_wpm item) minWpm maxWpm))) sd))"

section \<open>Statements and examples\<close>

text \<open>
  Two abbreviations for the statements below: the chunk that the next tick takes, and the
  pause that \<open>runLoop\<close> adds for the punctuation at the end of the last word.
\<close>

abbreviation next_chunk :: "App \<Rightarrow> string list" where
  "next_chunk s \<equiv> take (chunkSize s) (drop (currentIndex s) (words s))"

abbreviation pause :: "rat \<Rightarrow> string \<Rightarrow> rat" where
  "pause msPerWord lastWord \<equiv>
     (if endsWith lastWord CHR ''.'' \<or> endsWith lastWord CHR ''!'' \<or> endsWith lastWord CHR ''?''
        then msPerWord * (3 / 2)
      else if endsWith lastWord CHR '','' \<or> endsWith lastWord CHR '';'' then msPerWord * (1 / 2)
      else 0)"

text \<open>Example states and an example series of samples.\<close>

definition ex_end :: App where
  "ex_end =
     \<lparr>engine = \<lparr>lastAnchorChar = Some ''h''\<rparr>, words = [''The'', ''end.''], currentIndex = 1,
      isPlaying = True, wpm = 599 / 2, chunkSize = 1, timer = None,
      sessionData = [\<lparr>sample_words = ''The'', sample_wpm = 300, timestamp = 0\<rparr>],
      sessionStartTime = 0, reportHidden = True\<rparr>"

definition ex_first :: App where
  "ex_first =
     \<lparr>engine = \<lparr>lastAnchorChar = None\<rparr>, words = [''The'', ''quick'', ''fox.''],
      currentIndex = 0, isPlaying = True, wpm = 300, chunkSize = 1, timer = None,
      sessionData = [], sessionStartTime = 0, reportHidden = True\<rparr>"

definition ex_series :: "SessionSample list" where
  "ex_series =
     [\<lparr>sample_words = ''The'', sample_wpm = 301, timestamp = 0\<rparr>,
      \<lparr>sample_words = ''quick'', sample_wpm = 301, timestamp = 199\<rparr>,
      \<lparr>sample_words = ''fox.'', sample_wpm = 302, timestamp = 398\<rparr>]"

definition ex_flat :: "SessionSample list" where
  "ex_flat =
     [\<lparr>sample_words = ''The'', sample_wpm = 1200, timestamp = 0\<rparr>,
      \<lparr>sample_words = ''end.'', sample_wpm = 1200, timestamp = 50\<rparr>]"

definition ex_running :: App where
  "ex_running =
     \<lparr>engine = \<lparr>lastAnchorChar = Some ''h''\<rparr>, words = [''The'', ''quick'', ''fox.''],
      currentIndex = 1, isPlaying = True, wpm = 601 / 2, chunkSize = 1,
      timer = Some (120000 / 601),
      sessionData = [\<lparr>sample_words = ''The'', sample_wpm = 301, timestamp = 3\<rparr>],
      sessionStartTime = 1000, reportHidden = True\<rparr>"

definition ex_fresh :: App where
  "ex_fresh =
     \<lparr>engine = \<lparr>lastAnchorChar = None\<rparr>, words = [''The'', ''quick'', ''fox.''],
      currentIndex = 0, isPlaying = False, wpm = 300, chunkSize = 1, timer = None,
      sessionData = [], sessionStartTime = 0, reportHidden = True\<rparr>"

text \<open>
  The invariant of a run: the samples added since its start are in non-decreasing order of
  rate, none exceeds the rounded current rate, and once a sample is added the current rate
  is at most \<open>1200\<close>.
\<close>

definition rate_inv :: "SessionSample list \<Rightarrow> App \<Rightarrow> bool" where
  "rate_inv old s =
     (\<exists>new. sessionData s = old @ new \<and> sorted (map sample_wpm new) \<and>
        (\<forall>x\<in>set new. sample_wpm x \<le> Math_round (wpm s)) \<and> (new \<noteq> [] \<longrightarrow> wpm s \<le> 1200))"

section \<open>The anchor engine: properties\<close>

lemma floor_half: "\<lfloor>(of_int n :: rat) / 2\<rfloor> = n div 2"
  using floor_divide_of_int_eq [of n 2, where ?'a = rat] by simp

lemma ceiling_half: "\<lceil>(of_int n :: rat) / 2\<rceil> = (n + 1) div 2"
proof -
  have "\<lceil>(of_int n :: rat) / of_int 2\<rceil> = - ((- n) div 2)"
    by (rule ceiling_divide_eq_div)
  then show ?thesis by simp
qed

lemma fallback_eq: "fallback len = max 0 ((len + 1) div 2 - 1)"
  by (simp add: fallback_def ceiling_half Let_def max_def)

lemma fallback_range: "0 < len \<Longrightarrow> 0 \<le> fallback len \<and> fallback len < len"
  unfolding fallback_eq by (simp add: max_def) presburger

lemma foldl_closer_mem: "foldl (closer c) a ms \<in> set (a # ms)"
  by (induction ms arbitrary: a) (auto simp: closer_def)

lemma foldl_closer_min:
  "j \<in> set (a # ms) \<Longrightarrow> \<bar>int (foldl (closer c) a ms) - c\<bar> \<le> \<bar>int j - c\<bar>"
proof (induction ms arbitrary: a j)
  case Nil then show ?case by simp
next
  case (Cons x xs)
  have le_a: "\<bar>int (closer c a x) - c\<bar> \<le> \<bar>int a - c\<bar>"
   and le_x: "\<bar>int (closer c a x) - c\<bar> \<le> \<bar>int x - c\<bar>"
    by (simp_all add: closer_def)
  have r: "\<bar>int (foldl (closer c) (closer c a x) xs) - c\<bar> \<le> \<bar>int (closer c a x) - c\<bar>"
    using Cons.IH [of "closer c a x" "closer c a x"] by simp
  from Cons.prems consider "j = a" | "j = x" | "j \<in> set xs" by auto
  then show ?case
  proof cases
    case 1 with r le_a show ?thesis by simp
  next
    case 2 with r le_x show ?thesis by simp
  next
    case 3 then show ?thesis using Cons.IH [of j "closer c a x"] by simp
  qed
qed

lemma foldl_closer_first:
  "sorted (a # ms) \<Longrightarrow> distinct (a # ms) \<Longrightarrow> j \<in> set (a # ms) \<Longrightarrow>
   \<bar>int j - c\<bar> = \<bar>int (foldl (closer c) a ms) - c\<bar> \<Longrightarrow> foldl (closer c) a ms \<le> j"
proof (induction ms arbitrary: a j)
  case Nil then show ?case by simp
next
  case (Cons x xs)
  let ?a = "closer c a x"
  let ?r = "foldl (closer c) ?a xs"
  have ax: "a < x" using Cons.prems(1,2) by auto
  have srt: "sorted (?a # xs)" "distinct (?a # xs)"
    using Cons.prems(1,2) by (auto simp: closer_def)
  have rmin: "\<And>k. k \<in> set (?a # xs) \<Longrightarrow> \<bar>int ?r - c\<bar> \<le> \<bar>int k - c\<bar>"
    by (rule foldl_closer_min)
  have eq: "\<bar>int j - c\<bar> = \<bar>int ?r - c\<bar>" using Cons.prems(4) by simp
  show ?case
  proof (cases "\<bar>int x - c\<bar> < \<bar>int a - c\<bar>")
    case True
    then have a': "?a = x" by (simp add: closer_def)
    have "\<bar>int ?r - c\<bar> \<le> \<bar>int x - c\<bar>" using rmin [of ?a] a' by simp
    with True eq have "j \<noteq> a" by auto
    with Cons.prems(3) a' have "j \<in> set (?a # xs)" by auto
    from Cons.IH [OF srt this eq] show ?thesis by simp
  next
    case False
    then have a': "?a = a" by (simp add: closer_def)
    show ?thesis
    proof (cases "j = x")
      case True
      have "\<bar>int ?r - c\<bar> \<le> \<bar>int a - c\<bar>" using rmin [of ?a] a' by simp
      with False eq True have "\<bar>int a - c\<bar> = \<bar>int ?r - c\<bar>" by simp
      moreover have "a \<in> set (?a # xs)" using a' by simp
      ultimately have "?r \<le> a" using Cons.IH [OF srt, of a] by simp
      with ax True show ?thesis by simp
    next
      case False
      with Cons.prems(3) a' have "j \<in> set (?a # xs)" by auto
      from Cons.IH [OF srt this eq] show ?thesis by simp
    qed
  qed
qed

lemma floor_half_nat: "\<lfloor>(of_nat n :: rat) / 2\<rfloor> = int n div 2"
  using floor_half [of "int n"] by simp

lemma find_matches_sorted: "sorted (find_matches word a) \<and> distinct (find_matches word a)"
  by (simp add: find_matches_def sorted_wrt_filter)

lemma find_matches_iff:
  "i \<in> set (find_matches word a) \<longleftrightarrow> i < length word \<and> toLowerCase [word ! i] = toLowerCase a"
  by (auto simp: find_matches_def)

lemma sticky_cases:
  "sticky word anchor = - 1 \<or>
   (\<exists>m ms. truthy anchor \<and> find_matches word (the anchor) = m # ms \<and>
     sticky word anchor = int (foldl (closer (int (length word) div 2)) m ms))"
  by (auto simp: sticky_def floor_half_nat Let_def split: list.splits)

lemma sticky_range:
  "sticky word anchor = - 1 \<or> (0 \<le> sticky word anchor \<and> sticky word anchor < int (length word))"
proof -
  from sticky_cases [of word anchor] show ?thesis
  proof
    assume "sticky word anchor = - 1" then show ?thesis by simp
  next
    assume "\<exists>m ms. truthy anchor \<and> find_matches word (the anchor) = m # ms \<and>
      sticky word anchor = int (foldl (closer (int (length word) div 2)) m ms)"
    then obtain m ms where fm: "find_matches word (the anchor) = m # ms"
      and st: "sticky word anchor = int (foldl (closer (int (length word) div 2)) m ms)"
      by blast
    have "foldl (closer (int (length word) div 2)) m ms \<in> set (find_matches word (the anchor))"
      unfolding fm by (rule foldl_closer_mem)
    then have "foldl (closer (int (length word) div 2)) m ms < length word"
      by (simp add: find_matches_iff)
    with st show ?thesis by simp
  qed
qed

lemma process_nonempty:
  "word \<noteq> [] \<Longrightarrow> pivotIndex (fst (process word e)) =
     (if sticky word (lastAnchorChar e) = - 1 then fallback (int (length word))
      else sticky word (lastAnchorChar e))"
  by (simp add: process_def Let_def)

text \<open>
  Claim C6. For a non-empty text and any engine state (a remembered anchor of any value, or
  none), the pivot index that \<open>process\<close> returns is at least \<open>0\<close> and below the length of
  the text.
\<close>

theorem process_pivot_in_range:
  assumes "word \<noteq> []"
  shows "0 \<le> pivotIndex (fst (process word e)) \<and>
         pivotIndex (fst (process word e)) < int (length word)"
proof -
  from assms have len: "0 < int (length word)" by simp
  show ?thesis
    using sticky_range [of word "lastAnchorChar e"] fallback_range [OF len]
    by (auto simp: process_nonempty [OF assms])
qed

theorem process_pivot_in_range_witness:
  "''cat'' \<noteq> [] \<and>
   0 \<le> pivotIndex (fst (process ''cat'' \<lparr>lastAnchorChar = Some ''t''\<rparr>)) \<and>
   pivotIndex (fst (process ''cat'' \<lparr>lastAnchorChar = Some ''t''\<rparr>)) < int (length ''cat'')"
  using process_pivot_in_range [of "''cat''" "\<lparr>lastAnchorChar = Some ''t''\<rparr>"] by simp

text \<open>
  Claim C7. On the empty string \<open>process\<close> returns the pivot index \<open>0\<close> and the empty
  string as anchor character, in every engine state. The call has no branch that throws.
\<close>

theorem process_empty_result:
  "fst (process [] e) = \<lparr>pivotIndex = 0, anchorChar = Some []\<rparr>"
  by (simp add: process_def)

text \<open>
  Claim C10. On the empty string \<open>process\<close> returns before the update of the remembered
  anchor: the engine is unchanged, and so is the result of any later call.
\<close>

theorem process_empty_keeps_anchor:
  "snd (process [] e) = e \<and> process word (snd (process [] e)) = process word e"
  by (simp add: process_def)

lemma match_iff_lower: "toLowerCase [x] = toLowerCase [c] \<longleftrightarrow> lower_char x = lower_char c"
  by (simp add: toLowerCase_def)

text \<open>
  Claim C1. For a non-empty text and a remembered anchor character \<open>c\<close> that some position
  of the text matches without regard to case, \<open>process\<close> returns a matching index \<open>p\<close> that
  is closest to \<open>floor(length / 2)\<close> among the matching indices, and the lowest index among
  those at the same distance.
\<close>

theorem process_sticky_closest:
  assumes "word \<noteq> []"
    and "lastAnchorChar e = Some [c]"
    and "\<exists>i<length word. lower_char (word ! i) = lower_char c"
  shows "\<exists>p<length word.
           pivotIndex (fst (process word e)) = int p \<and>
           lower_char (word ! p) = lower_char c \<and>
           (\<forall>j<length word. lower_char (word ! j) = lower_char c \<longrightarrow>
              \<bar>int p - \<lfloor>(of_nat (length word) :: rat) / 2\<rfloor>\<bar>
                \<le> \<bar>int j - \<lfloor>(of_nat (length word) :: rat) / 2\<rfloor>\<bar> \<and>
              (\<bar>int j - \<lfloor>(of_nat (length word) :: rat) / 2\<rfloor>\<bar>
                 = \<bar>int p - \<lfloor>(of_nat (length word) :: rat) / 2\<rfloor>\<bar> \<longrightarrow> p \<le> j))"
proof -
  let ?a = "lastAnchorChar e"
  let ?c = "int (length word) div 2"
  have tr: "truthy ?a" and the_a: "the ?a = [c]"
    using assms(2) by (simp_all add: truthy_def)
  from assms(3) obtain i where "i \<in> set (find_matches word [c])"
    by (auto simp: find_matches_iff match_iff_lower)
  then obtain m ms where fm: "find_matches word [c] = m # ms"
    by (cases "find_matches word [c]") auto
  let ?p = "foldl (closer ?c) m ms"
  have st: "sticky word ?a = int ?p"
    by (simp add: sticky_def tr the_a fm floor_half_nat)
  have piv: "pivotIndex (fst (process word e)) = int ?p"
    by (simp add: process_nonempty [OF assms(1)] st)
  have mem: "?p \<in> set (find_matches word [c])"
    unfolding fm by (rule foldl_closer_mem)
  then have p_lt: "?p < length word" and p_match: "lower_char (word ! ?p) = lower_char c"
    by (simp_all add: find_matches_iff match_iff_lower)
  have srt: "sorted (m # ms)" "distinct (m # ms)"
    using find_matches_sorted [of word "[c]"] by (simp_all only: fm)
  have in_ms: "j \<in> set (m # ms)"
    if "j < length word" "lower_char (word ! j) = lower_char c" for j
    using that find_matches_iff [of j word "[c]"] by (simp add: fm match_iff_lower)
  have best_le: "\<bar>int ?p - ?c\<bar> \<le> \<bar>int j - ?c\<bar>"
    if "j < length word" "lower_char (word ! j) = lower_char c" for j
    using foldl_closer_min [OF in_ms [OF that]] .
  have best_first: "?p \<le> j"
    if "j < length word" "lower_char (word ! j) = lower_char c"
       "\<bar>int j - ?c\<bar> = \<bar>int ?p - ?c\<bar>" for j
    using foldl_closer_first [OF srt in_ms [OF that(1,2)] that(3)] .
  have "?p < length word \<and> pivotIndex (fst (process word e)) = int ?p \<and>
        lower_char (word ! ?p) = lower_char c \<and>
        (\<forall>j<length word. lower_char (word ! j) = lower_char c \<longrightarrow>
           \<bar>int ?p - ?c\<bar> \<le> \<bar>int j - ?c\<bar> \<and> (\<bar>int j - ?c\<bar> = \<bar>int ?p - ?c\<bar> \<longrightarrow> ?p \<le> j))"
    using p_lt piv p_match best_le best_first by (intro conjI allI impI) assumption+
  then show ?thesis
    unfolding floor_half_nat by (rule exI [of _ ?p])
qed

theorem process_sticky_closest_witness:
  "''banana'' \<noteq> [] \<and> lastAnchorChar \<lparr>lastAnchorChar = Some ''A''\<rparr> = Some [CHR ''A''] \<and>
   lower_char (''banana'' ! 3) = lower_char CHR ''A'' \<and>
   pivotIndex (fst (process ''banana'' \<lparr>lastAnchorChar = Some ''A''\<rparr>)) = 3"
proof -
  let ?w = "''banana''" and ?e = "\<lparr>lastAnchorChar = Some ''A''\<rparr>"
  have h1: "?w \<noteq> []" by simp
  have h2: "lastAnchorChar ?e = Some [CHR ''A'']" by simp
  have m3: "lower_char (?w ! 3) = lower_char CHR ''A''" by code_simp
  have len: "length ?w = 6" by simp
  have h3: "\<exists>i<length ?w. lower_char (?w ! i) = lower_char CHR ''A''"
    using m3 len by (intro exI [of _ 3]) simp
  from process_sticky_closest [OF h1 h2 h3] obtain p where
    piv: "pivotIndex (fst (process ?w ?e)) = int p" and
    best: "\<forall>j<length ?w. lower_char (?w ! j) = lower_char CHR ''A'' \<longrightarrow>
             \<bar>int p - \<lfloor>(of_nat (length ?w) :: rat) / 2\<rfloor>\<bar>
               \<le> \<bar>int j - \<lfloor>(of_nat (length ?w) :: rat) / 2\<rfloor>\<bar> \<and>
             (\<bar>int j - \<lfloor>(of_nat (length ?w) :: rat) / 2\<rfloor>\<bar>
                = \<bar>int p - \<lfloor>(of_nat (length ?w) :: rat) / 2\<rfloor>\<bar> \<longrightarrow> p \<le> j)"
    by blast
  have c: "\<lfloor>(of_nat (length ?w) :: rat) / 2\<rfloor> = 3" by simp
  have "(3::nat) < length ?w" by simp
  with best m3 have "\<bar>int p - 3\<bar> \<le> \<bar>int 3 - 3\<bar>" unfolding c by blast
  then have "int p = 3" by simp
  with piv h1 h2 m3 show ?thesis by simp
qed

lemma find_matches_empty:
  "\<forall>i<length word. toLowerCase [word ! i] \<noteq> toLowerCase a \<Longrightarrow> find_matches word a = []"
  by (simp add: find_matches_def filter_empty_conv)

lemma sticky_none:
  assumes "\<forall>a. anchor = Some a \<longrightarrow> (\<forall>i<length word. toLowerCase [word ! i] \<noteq> toLowerCase a)"
  shows "sticky word anchor = - 1"
proof (cases anchor)
  case None
  then show ?thesis by (simp add: sticky_def truthy_def)
next
  case (Some a)
  with assms have "find_matches word a = []" by (simp add: find_matches_empty)
  with Some show ?thesis by (simp add: sticky_def)
qed

lemma half_values:
  fixes n :: nat
  shows "n \<in> {1, 2} \<Longrightarrow> max 0 ((int n + 1) div 2 - 1) = 0"
    and "n \<in> {3, 4} \<Longrightarrow> max 0 ((int n + 1) div 2 - 1) = 1"
    and "n \<in> {5, 6} \<Longrightarrow> max 0 ((int n + 1) div 2 - 1) = 2"
  by auto

text \<open>
  Claim C2. For a non-empty text, when there is no remembered anchor or no position of the
  text matches it, \<open>process\<close> returns \<open>max(0, ceil(length / 2) - 1)\<close>: \<open>0\<close> for the lengths
  \<open>1\<close> and \<open>2\<close>, \<open>1\<close> for \<open>3\<close> and \<open>4\<close>, \<open>2\<close> for \<open>5\<close> and \<open>6\<close>.
\<close>

theorem process_fallback:
  assumes "word \<noteq> []"
    and "\<forall>a. lastAnchorChar e = Some a \<longrightarrow>
           (\<forall>i<length word. toLowerCase [word ! i] \<noteq> toLowerCase a)"
  shows "pivotIndex (fst (process word e)) = max 0 (\<lceil>(of_nat (length word) :: rat) / 2\<rceil> - 1) \<and>
         (length word \<in> {1, 2} \<longrightarrow> pivotIndex (fst (process word e)) = 0) \<and>
         (length word \<in> {3, 4} \<longrightarrow> pivotIndex (fst (process word e)) = 1) \<and>
         (length word \<in> {5, 6} \<longrightarrow> pivotIndex (fst (process word e)) = 2)"
proof -
  have st: "sticky word (lastAnchorChar e) = - 1"
    using assms(2) by (rule sticky_none)
  have piv: "pivotIndex (fst (process word e)) = max 0 ((int (length word) + 1) div 2 - 1)"
    by (simp add: process_nonempty [OF assms(1)] st fallback_eq)
  have ceil: "\<lceil>(of_nat (length word) :: rat) / 2\<rceil> = (int (length word) + 1) div 2"
    using ceiling_half [of "int (length word)"] by simp
  show ?thesis
    unfolding ceil piv using half_values [of "length word"] by (intro conjI impI refl)
qed

theorem process_fallback_witness:
  "''quick'' \<noteq> [] \<and> pivotIndex (fst (process ''quick'' \<lparr>lastAnchorChar = None\<rparr>)) = 2 \<and>
   pivotIndex (fst (process ''cat'' \<lparr>lastAnchorChar = Some ''Z''\<rparr>)) = 1"
proof -
  have h1: "''quick'' \<noteq> []" by simp
  have h2: "\<forall>a. lastAnchorChar \<lparr>lastAnchorChar = None\<rparr> = Some a \<longrightarrow>
              (\<forall>i<length ''quick''. toLowerCase [''quick'' ! i] \<noteq> toLowerCase a)"
    by simp
  have k1: "''cat'' \<noteq> []" by simp
  have "find_matches ''cat'' ''Z'' = []" by code_simp
  then have "\<forall>i<length ''cat''. toLowerCase [''cat'' ! i] \<noteq> toLowerCase ''Z''"
    using find_matches_iff [of _ "''cat''" "''Z''"] by fastforce
  then have k2: "\<forall>a. lastAnchorChar \<lparr>lastAnchorChar = Some ''Z''\<rparr> = Some a \<longrightarrow>
              (\<forall>i<length ''cat''. toLowerCase [''cat'' ! i] \<noteq> toLowerCase a)"
    by simp
  from process_fallback [OF h1 h2] process_fallback [OF k1 k2] show ?thesis by simp
qed

text \<open>
  Letters outside \<open>A\<close> to \<open>Z\<close>: the capital \<open>0xC9\<close> has the small letter \<open>0xE9\<close>, the signs
  \<open>0xD7\<close> and \<open>0xDF\<close> are kept. With the remembered anchor \<open>0xC9\<close>, a word with \<open>0xC9\<close> at
  index \<open>0\<close> and \<open>0xE9\<close> at index \<open>3\<close> of four is anchored at \<open>3\<close>, and a word of five that
  starts with \<open>0xE9\<close> is anchored at \<open>0\<close>, not at the fallback index \<open>2\<close>.
\<close>

lemma process_latin1_examples:
  "lower_char (CHR 0xC9) = CHR 0xE9 \<and> lower_char (CHR 0xD7) = CHR 0xD7 \<and>
   lower_char (CHR 0xDF) = CHR 0xDF \<and>
   pivotIndex (fst (process [CHR 0xC9, CHR ''x'', CHR ''x'', CHR 0xE9]
                      \<lparr>lastAnchorChar = Some [CHR 0xC9]\<rparr>)) = 3 \<and>
   pivotIndex (fst (process [CHR 0xE9, CHR ''a'', CHR ''b'', CHR ''c'', CHR ''d'']
                      \<lparr>lastAnchorChar = Some [CHR 0xC9]\<rparr>)) = 0"
  by code_simp

section \<open>The application: properties\<close>

lemma next_chunk_nonempty:
  "currentIndex s < length (words s) \<Longrightarrow> 0 < chunkSize s \<Longrightarrow> next_chunk s \<noteq> []"
  by simp

lemma runLoop_tick_state:
  assumes "isPlaying s" and "currentIndex s < length (words s)" and "0 < chunkSize s"
  shows "runLoop now s =
     Inr (s\<lparr>currentIndex := currentIndex s + chunkSize s,
            engine := snd (process (join_words (next_chunk s)) (engine s)),
            wpm := min 1200 (wpm s + 1 / 2 * of_nat (length (next_chunk s))),
            sessionData := sessionData s @
              [\<lparr>sample_words = join_words (next_chunk s),
                sample_wpm = Math_round (min 1200 (wpm s + 1 / 2 * of_nat (length (next_chunk s)))),
                timestamp = now - sessionStartTime s\<rparr>],
            timer := Some (60000 / min 1200 (wpm s + 1 / 2 * of_nat (length (next_chunk s)))
                            * of_nat (length (next_chunk s))
                          + pause (60000 / min 1200 (wpm s + 1 / 2 * of_nat (length (next_chunk s))))
                              (last (next_chunk s)))\<rparr>)"
proof -
  have ne: "next_chunk s \<noteq> []" using assms(2,3) by (rule next_chunk_nonempty)
  have ci: "\<not> length (words s) \<le> currentIndex s" using assms(2) by simp
  show ?thesis
    unfolding runLoop_def renderChunk_def accelerationRate_def Let_def
    using assms(1) ci ne by (simp add: case_prod_beta del: length_take length_drop)
qed

lemma runLoop_tick:
  assumes "isPlaying s" and "currentIndex s < length (words s)" and "0 < chunkSize s"
  shows "\<exists>s'. runLoop now s = Inr s' \<and>
           engine s' = snd (process (join_words (next_chunk s)) (engine s)) \<and>
           words s' = words s \<and>
           currentIndex s' = currentIndex s + chunkSize s \<and>
           isPlaying s' \<and>
           wpm s' = min 1200 (wpm s + 1 / 2 * of_nat (length (next_chunk s))) \<and>
           chunkSize s' = chunkSize s \<and>
           timer s' = Some (60000 / wpm s' * of_nat (length (next_chunk s)) +
                            pause (60000 / wpm s') (last (next_chunk s))) \<and>
           sessionData s' = sessionData s @
             [\<lparr>sample_words = join_words (next_chunk s),
               sample_wpm = Math_round (wpm s'),
               timestamp = now - sessionStartTime s\<rparr>] \<and>
           sessionStartTime s' = sessionStartTime s \<and>
           reportHidden s' = reportHidden s"
  unfolding runLoop_tick_state [OF assms]
  using assms(1) by (simp del: length_take length_drop)

lemma raised_rate_pos: "0 < w \<Longrightarrow> 0 < min 1200 (w + 1 / 2 * (of_nat n :: rat))"
  by (simp add: add_pos_nonneg)

text \<open>
  Claim C3. On a tick that takes a non-empty chunk, the delay of the timer it sets is
  \<open>(60000 / r) * chunkLength\<close>, plus \<open>(60000 / r) * 1.5\<close> when the last word of the chunk
  ends in \<open>.\<close>, \<open>!\<close> or \<open>?\<close>, plus \<open>(60000 / r) * 0.5\<close> when it ends in \<open>,\<close> or \<open>;\<close>, and
  nothing otherwise, where \<open>r\<close> is the rate in force when the delay is computed (the field
  \<open>wpm\<close> after the tick). At \<open>r = 300\<close> the one-word chunk \<open>end.\<close> gives \<open>500\<close>: the example
  that follows the theorem.
\<close>

theorem tick_delay:
  assumes "isPlaying s" and "currentIndex s < length (words s)" and "0 < chunkSize s"
    and "0 < wpm s"
  shows "\<exists>s'. runLoop now s = Inr s' \<and> 0 < wpm s' \<and>
           timer s' =
             Some (60000 / wpm s' * of_nat (length (next_chunk s)) +
                   (if endsWith (last (next_chunk s)) CHR ''.'' \<or>
                       endsWith (last (next_chunk s)) CHR ''!'' \<or>
                       endsWith (last (next_chunk s)) CHR ''?''
                      then 60000 / wpm s' * (3 / 2)
                    else if endsWith (last (next_chunk s)) CHR '','' \<or>
                            endsWith (last (next_chunk s)) CHR '';''
                      then 60000 / wpm s' * (1 / 2)
                    else 0))"
proof -
  from runLoop_tick [OF assms(1,2,3), of now] obtain s' where
    r: "runLoop now s = Inr s'" and
    w: "wpm s' = min 1200 (wpm s + 1 / 2 * of_nat (length (next_chunk s)))" and
    t: "timer s' = Some (60000 / wpm s' * of_nat (length (next_chunk s)) +
                         pause (60000 / wpm s') (last (next_chunk s)))"
    by blast
  have pos: "0 < wpm s'" unfolding w using assms(4) by (rule raised_rate_pos)
  show ?thesis by (intro exI [of _ s'] conjI) (rule r pos t)+
qed

theorem tick_delay_witness:
  "isPlaying ex_end \<and> currentIndex ex_end < length (words ex_end) \<and> 0 < chunkSize ex_end \<and>
   0 < wpm ex_end \<and> next_chunk ex_end = [''end.''] \<and>
   (\<exists>s'. runLoop 1000 ex_end = Inr s' \<and> wpm s' = 300 \<and> timer s' = Some 500)"
proof -
  have h: "isPlaying ex_end" "currentIndex ex_end < length (words ex_end)"
    "0 < chunkSize ex_end" "0 < wpm ex_end"
    by (simp_all add: ex_end_def)
  have c: "next_chunk ex_end = [''end.'']" by (simp add: ex_end_def)
  from tick_delay [OF h, of 1000] obtain s' where
    r: "runLoop 1000 ex_end = Inr s'" and
    t: "timer s' =
             Some (60000 / wpm s' * of_nat (length (next_chunk ex_end)) +
                   (if endsWith (last (next_chunk ex_end)) CHR ''.'' \<or>
                       endsWith (last (next_chunk ex_end)) CHR ''!'' \<or>
                       endsWith (last (next_chunk ex_end)) CHR ''?''
                      then 60000 / wpm s' * (3 / 2)
                    else if endsWith (last (next_chunk ex_end)) CHR '','' \<or>
                            endsWith (last (next_chunk ex_end)) CHR '';''
                      then 60000 / wpm s' * (1 / 2)
                    else 0))"
    by blast
  from runLoop_tick [OF h(1,2,3), of 1000] r
  have "wpm s' = min 1200 (wpm ex_end + 1 / 2 * of_nat (length (next_chunk ex_end)))"
    by auto
  then have w: "wpm s' = 300" unfolding c by (simp add: ex_end_def)
  have e: "60000 / 300 * of_nat (length [''end.'']) +
             (if endsWith (last [''end.'']) CHR ''.'' \<or> endsWith (last [''end.'']) CHR ''!'' \<or>
                 endsWith (last [''end.'']) CHR ''?''
                then 60000 / 300 * (3 / 2)
              else if endsWith (last [''end.'']) CHR '','' \<or> endsWith (last [''end.'']) CHR '';''
                then 60000 / 300 * (1 / 2)
              else 0) = (500 :: rat)"
    by (simp add: endsWith_def)
  have t': "timer s' = Some 500"
    using t unfolding c w e .
  show ?thesis by (intro conjI exI [of _ s']) (rule h c r w t')+
qed

text \<open>
  Claim C9. On a tick with words left, the rate is first raised by \<open>0.5\<close> per word of the
  chunk, capped at \<open>1200\<close>; the sample records the rounded raised rate and the delay is
  computed from the raised rate (the field \<open>wpm\<close> after the tick), not from the rate before
  the tick.
\<close>

theorem tick_accelerates_first:
  assumes "isPlaying s" and "currentIndex s < length (words s)" and "0 < chunkSize s"
    and "0 < wpm s"
  shows "\<exists>s'. runLoop now s = Inr s' \<and>
           wpm s' = min 1200 (wpm s + 1 / 2 * of_nat (length (next_chunk s))) \<and>
           0 < wpm s' \<and>
           sessionData s' = sessionData s @
             [\<lparr>sample_words = join_words (next_chunk s),
               sample_wpm = Math_round (wpm s'),
               timestamp = now - sessionStartTime s\<rparr>] \<and>
           timer s' = Some (60000 / wpm s' * of_nat (length (next_chunk s)) +
                            pause (60000 / wpm s') (last (next_chunk s)))"
proof -
  from runLoop_tick [OF assms(1,2,3), of now] obtain s' where
    r: "runLoop now s = Inr s'" and
    w: "wpm s' = min 1200 (wpm s + 1 / 2 * of_nat (length (next_chunk s)))" and
    d: "sessionData s' = sessionData s @
             [\<lparr>sample_words = join_words (next_chunk s),
               sample_wpm = Math_round (wpm s'),
               timestamp = now - sessionStartTime s\<rparr>]" and
    t: "timer s' = Some (60000 / wpm s' * of_nat (length (next_chunk s)) +
                         pause (60000 / wpm s') (last (next_chunk s)))"
    by blast
  have pos: "0 < wpm s'" unfolding w using assms(4) by (rule raised_rate_pos)
  show ?thesis by (intro exI [of _ s'] conjI) (rule r w pos d t)+
qed

theorem tick_accelerates_first_witness:
  "isPlaying ex_first \<and> currentIndex ex_first < length (words ex_first) \<and>
   0 < chunkSize ex_first \<and> 0 < wpm ex_first \<and> wpm ex_first = 300 \<and>
   (\<exists>s'. runLoop 7 ex_first = Inr s' \<and> wpm s' = 601 / 2 \<and>
      map sample_wpm (sessionData s') = [301] \<and> timer s' = Some (120000 / 601))"
proof -
  have h: "isPlaying ex_first" "currentIndex ex_first < length (words ex_first)"
    "0 < chunkSize ex_first" "0 < wpm ex_first"
    by (simp_all add: ex_first_def)
  have c: "next_chunk ex_first = [''The'']" and w0: "wpm ex_first = 300"
    and d0: "sessionData ex_first = []"
    by (simp_all add: ex_first_def)
  from tick_accelerates_first [OF h, of 7] obtain s' where
    r: "runLoop 7 ex_first = Inr s'" and
    w: "wpm s' = min 1200 (wpm ex_first + 1 / 2 * of_nat (length (next_chunk ex_first)))" and
    d: "sessionData s' = sessionData ex_first @
             [\<lparr>sample_words = join_words (next_chunk ex_first),
               sample_wpm = Math_round (wpm s'),
               timestamp = 7 - sessionStartTime ex_first\<rparr>]" and
    t: "timer s' = Some (60000 / wpm s' * of_nat (length (next_chunk ex_first)) +
                         pause (60000 / wpm s') (last (next_chunk ex_first)))"
    by blast
  have w': "wpm s' = 601 / 2" using w unfolding c w0 by simp
  have rd: "Math_round (601 / 2) = 301" by (simp add: Math_round_def)
  have d': "map sample_wpm (sessionData s') = [301]" using d unfolding w' rd d0 by simp
  have e: "60000 / (601 / 2) * of_nat (length [''The'']) +
             pause (60000 / (601 / 2)) (last [''The'']) = (120000 / 601 :: rat)"
    by (simp add: endsWith_def)
  have t': "timer s' = Some (120000 / 601)" using t unfolding c w' e .
  show ?thesis by (intro conjI exI [of _ s']) (rule h w0 r w' d' t')+
qed

lemma foldl_max_Max: "foldl max (a::int) xs = Max (set (a # xs))"
proof (induction xs arbitrary: a)
  case Nil
  show ?case by simp
next
  case (Cons x xs)
  have "Max (set (max a x # xs)) = Max (set (a # x # xs))"
    by (cases "xs = []") (simp_all add: max.assoc)
  with Cons show ?case by simp
qed

lemma foldl_min_Min: "foldl min (a::int) xs = Min (set (a # xs))"
proof (induction xs arbitrary: a)
  case Nil
  show ?case by simp
next
  case (Cons x xs)
  have "Min (set (min a x # xs)) = Min (set (a # x # xs))"
    by (cases "xs = []") (simp_all add: min.assoc)
  with Cons show ?case by simp
qed

lemma renderHeatmap_nth:
  assumes "sd \<noteq> []" and "i < length sd"
  shows "renderHeatmap sd ! i =
           (sample_words (sd ! i) @ '' '',
            map_option (\<lambda>n. 200 - n * 200)
              (normalized (sample_wpm (sd ! i))
                 (Min (set (map sample_wpm sd))) (Max (set (map sample_wpm sd)))))"
proof -
  from assms(1) obtain x xs where sd: "sd = x # xs" by (cases sd) auto
  have "renderHeatmap sd =
          map (\<lambda>item. (sample_words item @ '' '',
                 map_option (\<lambda>n. 200 - n * 200)
                   (normalized (sample_wpm item)
                      (Min (set (map sample_wpm sd))) (Max (set (map sample_wpm sd)))))) sd"
    unfolding sd renderHeatmap_def by (simp add: Let_def foldl_max_Max foldl_min_Min)
  with assms(2) show ?thesis by simp
qed

text \<open>
  Claim C8. For a non-empty series, the intensity computed for each sample is a number
  (the quotient has no zero divisor): it is \<open>(rate - min) / (max - min)\<close> over the recorded
  rates when the maximum differs from the minimum, and \<open>0\<close> when they are equal, where the
  divisor is \<open>1\<close> by \<open>max - min || 1\<close>. The hue of the sample is \<open>200 - intensity * 200\<close>.
\<close>

theorem heatmap_intensity:
  assumes "sd \<noteq> []" and "i < length sd"
  shows "normalized (sample_wpm (sd ! i))
           (Min (set (map sample_wpm sd))) (Max (set (map sample_wpm sd))) =
           Some (if Max (set (map sample_wpm sd)) = Min (set (map sample_wpm sd)) then 0
                 else of_int (sample_wpm (sd ! i) - Min (set (map sample_wpm sd))) /
                      of_int (Max (set (map sample_wpm sd)) - Min (set (map sample_wpm sd)))) \<and>
         renderHeatmap sd ! i =
           (sample_words (sd ! i) @ '' '',
            Some (200 -
              (if Max (set (map sample_wpm sd)) = Min (set (map sample_wpm sd)) then 0
               else of_int (sample_wpm (sd ! i) - Min (set (map sample_wpm sd))) /
                    of_int (Max (set (map sample_wpm sd)) - Min (set (map sample_wpm sd)))) * 200))"
proof -
  let ?R = "set (map sample_wpm sd)"
  have fin: "finite ?R" and mem: "sample_wpm (sd ! i) \<in> ?R"
    using assms(2) by simp_all
  have lo: "Min ?R \<le> sample_wpm (sd ! i)" and hi: "sample_wpm (sd ! i) \<le> Max ?R"
    using fin mem by simp_all
  have eq0: "sample_wpm (sd ! i) - Min ?R = 0" if "Max ?R = Min ?R"
    using lo hi that by simp
  have n: "normalized (sample_wpm (sd ! i)) (Min ?R) (Max ?R) =
           Some (if Max ?R = Min ?R then 0
                 else of_int (sample_wpm (sd ! i) - Min ?R) / of_int (Max ?R - Min ?R))"
    using eq0 by (simp add: normalized_def or_1_def js_div_def)
  have h: "renderHeatmap sd ! i =
           (sample_words (sd ! i) @ '' '',
            Some (200 -
              (if Max ?R = Min ?R then 0
               else of_int (sample_wpm (sd ! i) - Min ?R) / of_int (Max ?R - Min ?R)) * 200))"
    unfolding renderHeatmap_nth [OF assms] n by simp
  from n h show ?thesis by (rule conjI)
qed

theorem heatmap_intensity_witness:
  "ex_series \<noteq> [] \<and> (2::nat) < length ex_series \<and>
   normalized (sample_wpm (ex_series ! 2)) 301 302 = Some 1 \<and>
   renderHeatmap ex_series ! 2 = (''fox. '', Some 0) \<and>
   ex_flat \<noteq> [] \<and> (1::nat) < length ex_flat \<and>
   normalized (sample_wpm (ex_flat ! 1)) 1200 1200 = Some 0 \<and>
   renderHeatmap ex_flat ! 1 = (''end. '', Some 200)"
proof -
  have h1: "ex_series \<noteq> []" and h2: "(2::nat) < length ex_series"
    by (simp_all add: ex_series_def)
  have mx: "Max (set (map sample_wpm ex_series)) = 302"
    and mn: "Min (set (map sample_wpm ex_series)) = 301"
    and r: "sample_wpm (ex_series ! 2) = 302" and w: "sample_words (ex_series ! 2) = ''fox.''"
    by (simp_all add: ex_series_def)
  have a: "normalized (sample_wpm (ex_series ! 2)) 301 302 = Some 1 \<and>
           renderHeatmap ex_series ! 2 = (''fox. '', Some 0)"
    using heatmap_intensity [OF h1 h2] unfolding mx mn r w by simp
  have k1: "ex_flat \<noteq> []" and k2: "(1::nat) < length ex_flat"
    by (simp_all add: ex_flat_def)
  have mx': "Max (set (map sample_wpm ex_flat)) = 1200"
    and mn': "Min (set (map sample_wpm ex_flat)) = 1200"
    and r': "sample_wpm (ex_flat ! 1) = 1200" and w': "sample_words (ex_flat ! 1) = ''end.''"
    by (simp_all add: ex_flat_def)
  have b: "normalized (sample_wpm (ex_flat ! 1)) 1200 1200 = Some 0 \<and>
           renderHeatmap ex_flat ! 1 = (''end. '', Some 200)"
    using heatmap_intensity [OF k1 k2] unfolding mx' mn' r' w' by simp
  from h1 h2 a k1 k2 b show ?thesis by (intro conjI) simp_all
qed

lemma wpmSlider_input_running:
  "isPlaying s \<Longrightarrow>
   wpmSlider_input v now now' s =
     runLoop now' (s\<lparr>wpm := of_int v, timer := None, isPlaying := True, sessionStartTime := now\<rparr>)"
  by (simp add: wpmSlider_input_def start_def stop_def)

text \<open>
  What the slider handler does at any playing state: \<open>stop\<close>, then \<open>start\<close>, which assigns
  the clock reading to the session start timestamp and calls \<open>runLoop\<close>.
\<close>

lemma wpmSlider_input_restart:
  assumes "isPlaying s" and "0 < chunkSize s" and "0 < v"
  shows "\<exists>s'. wpmSlider_input v now now' s = Inr s' \<and>
           sessionStartTime s' = now \<and> words s' = words s \<and>
           (if currentIndex s < length (words s) then
              isPlaying s' \<and>
              currentIndex s' = currentIndex s + chunkSize s \<and>
              wpm s' = min 1200 (of_int v + 1 / 2 * of_nat (length (next_chunk s))) \<and>
              0 < wpm s' \<and>
              sessionData s' = sessionData s @
                [\<lparr>sample_words = join_words (next_chunk s),
                  sample_wpm = Math_round (wpm s'),
                  timestamp = now' - now\<rparr>] \<and>
              timer s' = Some (60000 / wpm s' * of_nat (length (next_chunk s)) +
                               pause (60000 / wpm s') (last (next_chunk s)))
            else
              \<not> isPlaying s' \<and> currentIndex s' = currentIndex s \<and>
              wpm s' = of_int v \<and> sessionData s' = sessionData s \<and> timer s' = None)"
proof (cases "currentIndex s < length (words s)")
  case True
  let ?s = "s\<lparr>wpm := of_int v, timer := None, isPlaying := True, sessionStartTime := now\<rparr>"
  have h: "isPlaying ?s" "currentIndex ?s < length (words ?s)" "0 < chunkSize ?s"
    using True assms(2) by simp_all
  have c: "next_chunk ?s = next_chunk s" by simp
  from runLoop_tick [OF h, of now'] obtain s' where
    r: "runLoop now' ?s = Inr s'" and
    f1: "words s' = words ?s" and
    f2: "currentIndex s' = currentIndex ?s + chunkSize ?s" and
    f3: "isPlaying s'" and
    f4: "wpm s' = min 1200 (wpm ?s + 1 / 2 * of_nat (length (next_chunk ?s)))" and
    f5: "timer s' = Some (60000 / wpm s' * of_nat (length (next_chunk ?s)) +
                          pause (60000 / wpm s') (last (next_chunk ?s)))" and
    f6: "sessionData s' = sessionData ?s @
             [\<lparr>sample_words = join_words (next_chunk ?s),
               sample_wpm = Math_round (wpm s'),
               timestamp = now' - sessionStartTime ?s\<rparr>]" and
    f7: "sessionStartTime s' = sessionStartTime ?s"
    by blast
  have g0: "wpmSlider_input v now now' s = Inr s'"
    unfolding wpmSlider_input_running [OF assms(1)] by (rule r)
  have g1: "words s' = words s" using f1 by simp
  have g2: "currentIndex s' = currentIndex s + chunkSize s" using f2 by simp
  have g4: "wpm s' = min 1200 (of_int v + 1 / 2 * of_nat (length (next_chunk s)))"
    using f4 unfolding c by simp
  have g5: "timer s' = Some (60000 / wpm s' * of_nat (length (next_chunk s)) +
                          pause (60000 / wpm s') (last (next_chunk s)))"
    using f5 unfolding c .
  have g6: "sessionData s' = sessionData s @
             [\<lparr>sample_words = join_words (next_chunk s),
               sample_wpm = Math_round (wpm s'),
               timestamp = now' - now\<rparr>]"
    using f6 unfolding c by simp
  have g7: "sessionStartTime s' = now" using f7 by simp
  have pos: "0 < wpm s'"
    unfolding g4 using assms(3) by (intro raised_rate_pos) simp
  show ?thesis
    unfolding if_P [OF True]
    by (intro exI [of _ s'] conjI) (rule g0 g7 g1 f3 g2 g4 pos g6 g5)+
next
  case False
  let ?s' = "s\<lparr>wpm := of_int v, timer := None, isPlaying := False, sessionStartTime := now,
               reportHidden := False\<rparr>"
  have "wpmSlider_input v now now' s = Inr ?s'"
    unfolding wpmSlider_input_running [OF assms(1)]
    using False by (simp add: runLoop_def stop_def showReport_def)
  then show ?thesis
    unfolding if_not_P [OF False]
    by (intro exI [of _ ?s'] conjI) simp_all
qed

text \<open>
  The other way to change the rate while playing, the arrow keys, keeps the index, the
  session start timestamp, the samples and the pending timer; the next tick then computes
  its delay from the changed rate.
\<close>

lemma keydown_keeps_session:
  "currentIndex (keydown_ArrowRight s) = currentIndex s \<and>
   sessionStartTime (keydown_ArrowRight s) = sessionStartTime s \<and>
   sessionData (keydown_ArrowRight s) = sessionData s \<and>
   timer (keydown_ArrowRight s) = timer s \<and>
   isPlaying (keydown_ArrowRight s) = isPlaying s \<and>
   wpm (keydown_ArrowRight s) = min 1000 (wpm s + 50) \<and>
   currentIndex (keydown_ArrowLeft s) = currentIndex s \<and>
   sessionStartTime (keydown_ArrowLeft s) = sessionStartTime s \<and>
   sessionData (keydown_ArrowLeft s) = sessionData s \<and>
   timer (keydown_ArrowLeft s) = timer s \<and>
   isPlaying (keydown_ArrowLeft s) = isPlaying s \<and>
   wpm (keydown_ArrowLeft s) = max 60 (wpm s - 50)"
  by (simp add: keydown_ArrowRight_def keydown_ArrowLeft_def updateWPMFromLogic_def)

lemma keydown_next_tick:
  assumes "isPlaying s" and "currentIndex s < length (words s)" and "0 < chunkSize s"
  shows "\<exists>s'. runLoop now (keydown_ArrowRight s) = Inr s' \<and>
           wpm s' = min 1200 (min 1000 (wpm s + 50) + 1 / 2 * of_nat (length (next_chunk s))) \<and>
           timer s' = Some (60000 / wpm s' * of_nat (length (next_chunk s)) +
                            pause (60000 / wpm s') (last (next_chunk s))) \<and>
           sessionStartTime s' = sessionStartTime s"
proof -
  let ?s = "keydown_ArrowRight s"
  have k: "?s = s\<lparr>wpm := min 1000 (wpm s + 50)\<rparr>"
    by (simp add: keydown_ArrowRight_def updateWPMFromLogic_def)
  have h: "isPlaying ?s" "currentIndex ?s < length (words ?s)" "0 < chunkSize ?s"
    using assms unfolding k by simp_all
  have c: "next_chunk ?s = next_chunk s" unfolding k by simp
  from runLoop_tick [OF h, of now] obtain s' where
    r: "runLoop now ?s = Inr s'" and
    f4: "wpm s' = min 1200 (wpm ?s + 1 / 2 * of_nat (length (next_chunk ?s)))" and
    f5: "timer s' = Some (60000 / wpm s' * of_nat (length (next_chunk ?s)) +
                          pause (60000 / wpm s') (last (next_chunk ?s)))" and
    f7: "sessionStartTime s' = sessionStartTime ?s"
    by blast
  have g4: "wpm s' = min 1200 (min 1000 (wpm s + 50) + 1 / 2 * of_nat (length (next_chunk s)))"
    using f4 unfolding c by (simp add: k)
  have g5: "timer s' = Some (60000 / wpm s' * of_nat (length (next_chunk s)) +
                          pause (60000 / wpm s') (last (next_chunk s)))"
    using f5 unfolding c .
  have g7: "sessionStartTime s' = sessionStartTime s" using f7 by (simp add: k)
  show ?thesis by (intro exI [of _ s'] conjI) (rule r g4 g5 g7)+
qed

text \<open>
  Claim C4. A change of rate while playing is to restart the delay computation at the new
  rate without resetting \<open>currentIndex\<close>, the session start timestamp or the recorded
  samples. The arrow keys do so; the slider handler does not: at the playing state
  \<open>ex_running\<close>, with session start \<open>1000\<close> and one sample of timestamp \<open>3\<close>, a change of rate
  to \<open>400\<close> at clock reading \<open>9000\<close> leaves the session start at \<open>9000\<close>, and the sample of
  the tick it runs (at clock reading \<open>9001\<close>) has timestamp \<open>1\<close>, below the one before it.
\<close>

theorem rate_change_resets_session_start:
  "isPlaying ex_running \<and> sessionStartTime ex_running = 1000 \<and>
   map timestamp (sessionData ex_running) = [3] \<and>
   map_sum id sessionStartTime (wpmSlider_input 400 9000 9001 ex_running) = Inr 9000 \<and>
   map_sum id (\<lambda>s. map timestamp (sessionData s))
     (wpmSlider_input 400 9000 9001 ex_running) = Inr [3, 1] \<and>
   sessionStartTime (keydown_ArrowRight ex_running) = 1000"
proof -
  have p: "isPlaying ex_running" and t0: "sessionStartTime ex_running = 1000"
    and d0: "map timestamp (sessionData ex_running) = [3]"
    by (simp_all add: ex_running_def)
  let ?s = "ex_running\<lparr>wpm := of_int 400, timer := None, isPlaying := True,
              sessionStartTime := 9000\<rparr>"
  have h: "isPlaying ?s" "currentIndex ?s < length (words ?s)" "0 < chunkSize ?s"
    by (simp_all add: ex_running_def)
  from runLoop_tick [OF h, of 9001] obtain s' where
    r: "runLoop 9001 ?s = Inr s'" and t: "sessionStartTime s' = sessionStartTime ?s" and
    d: "sessionData s' = sessionData ?s @
             [\<lparr>sample_words = join_words (next_chunk ?s),
               sample_wpm = Math_round (wpm s'),
               timestamp = 9001 - sessionStartTime ?s\<rparr>]"
    by blast
  have w: "wpmSlider_input 400 9000 9001 ex_running = Inr s'"
    unfolding wpmSlider_input_running [OF p] using r by simp
  have t': "sessionStartTime s' = 9000" using t by simp
  have d': "map timestamp (sessionData s') = [3, 1]"
    unfolding d using d0 by simp
  have a: "map_sum id sessionStartTime (wpmSlider_input 400 9000 9001 ex_running) = Inr 9000"
    unfolding w using t' by simp
  have b: "map_sum id (\<lambda>s. map timestamp (sessionData s))
             (wpmSlider_input 400 9000 9001 ex_running) = Inr [3, 1]"
    unfolding w using d' by simp
  have k: "sessionStartTime (keydown_ArrowRight ex_running) = 1000"
    using t0 by (simp add: keydown_ArrowRight_def updateWPMFromLogic_def)
  from p t0 d0 a b k show ?thesis by (intro conjI)
qed

lemma Math_round_mono: "x \<le> y \<Longrightarrow> Math_round x \<le> Math_round y"
  by (simp add: Math_round_def floor_mono)

lemma Math_round_1200: "Math_round 1200 = 1200"
  unfolding Math_round_def by (rule floor_unique) simp_all

lemma runLoop_cases:
  assumes "runLoop now s = Inr s'"
  shows "s' = s \<or> s' = showReport (stop s) \<or>
         (isPlaying s \<and> currentIndex s < length (words s) \<and> 0 < chunkSize s)"
proof (cases "isPlaying s \<and> currentIndex s < length (words s)")
  case True
  have "0 < chunkSize s"
  proof (rule ccontr)
    assume "\<not> 0 < chunkSize s"
    then have "runLoop now s = Inl TypeError"
      using True by (simp add: runLoop_def Let_def)
    with assms show False by simp
  qed
  with True show ?thesis by simp
next
  case False
  with assms show ?thesis by (auto simp: runLoop_def split: if_splits)
qed

lemma rate_inv_step:
  assumes inv: "rate_inv old s"
    and s': "sessionData s' = sessionData s @ [x]" "sample_wpm x = Math_round (wpm s')"
      "wpm s' = min 1200 (wpm s + a)" and a: "0 \<le> a"
  shows "rate_inv old s'"
proof -
  from inv obtain new where new: "sessionData s = old @ new" "sorted (map sample_wpm new)"
    "\<forall>y\<in>set new. sample_wpm y \<le> Math_round (wpm s)" "new \<noteq> [] \<longrightarrow> wpm s \<le> 1200"
    unfolding rate_inv_def by blast
  have le: "sample_wpm y \<le> Math_round (wpm s')" if "y \<in> set new" for y
  proof -
    from that new(4) have "wpm s \<le> 1200" by auto
    with a have "wpm s \<le> wpm s'" unfolding s'(3) by simp
    then have "Math_round (wpm s) \<le> Math_round (wpm s')" by (rule Math_round_mono)
    with new(3) that show ?thesis by fastforce
  qed
  have 1: "sessionData s' = old @ (new @ [x])" using s'(1) new(1) by simp
  have 2: "sorted (map sample_wpm (new @ [x]))"
    using new(2) le by (simp add: sorted_append s'(2))
  have 3: "\<forall>y\<in>set (new @ [x]). sample_wpm y \<le> Math_round (wpm s')"
    using le s'(2) by auto
  have 4: "wpm s' \<le> 1200" unfolding s'(3) by simp
  show ?thesis unfolding rate_inv_def
    using 1 2 3 4 by blast
qed

lemma rate_inv_frame:
  "rate_inv old s \<Longrightarrow> sessionData s' = sessionData s \<Longrightarrow> wpm s' = wpm s \<Longrightarrow> rate_inv old s'"
  by (simp add: rate_inv_def)

lemma runLoop_rate_inv:
  assumes "rate_inv old s" and "runLoop now s = Inr s'"
  shows "rate_inv old s'"
proof -
  from runLoop_cases [OF assms(2)] consider "s' = s" | "s' = showReport (stop s)"
    | "isPlaying s \<and> currentIndex s < length (words s) \<and> 0 < chunkSize s" by blast
  then show ?thesis
  proof cases
    case 1 with assms(1) show ?thesis by simp
  next
    case 2
    show ?thesis
      by (rule rate_inv_frame [OF assms(1)]) (simp_all add: 2 showReport_def stop_def)
  next
    case 3
    then have h: "isPlaying s" "currentIndex s < length (words s)" "0 < chunkSize s" by simp_all
    from runLoop_tick [OF h, of now] assms(2) have
      w: "wpm s' = min 1200 (wpm s + 1 / 2 * of_nat (length (next_chunk s)))" and
      d: "sessionData s' = sessionData s @
             [\<lparr>sample_words = join_words (next_chunk s),
               sample_wpm = Math_round (wpm s'),
               timestamp = now - sessionStartTime s\<rparr>]"
      by auto
    show ?thesis
      by (rule rate_inv_step [OF assms(1) d _ w]) simp_all
  qed
qed

lemma fire_rate_inv:
  assumes "rate_inv old s" and "fire now s = Inr s'"
  shows "rate_inv old s'"
proof (cases "timer s")
  case None
  with assms show ?thesis by (simp add: fire_def)
next
  case (Some d)
  have "rate_inv old (s\<lparr>timer := None\<rparr>)"
    by (rule rate_inv_frame [OF assms(1)]) simp_all
  moreover from assms(2) Some have "runLoop now (s\<lparr>timer := None\<rparr>) = Inr s'"
    by (simp add: fire_def)
  ultimately show ?thesis by (rule runLoop_rate_inv)
qed

lemma run_ticks_rate_inv:
  "rate_inv old s \<Longrightarrow> run_ticks ts s = Inr s' \<Longrightarrow> rate_inv old s'"
proof (induction ts arbitrary: s)
  case Nil
  then show ?case by simp
next
  case (Cons t ts)
  from Cons.prems(2) obtain s1 where f: "fire t s = Inr s1" and r: "run_ticks ts s1 = Inr s'"
    by (auto split: sum.splits)
  from Cons.prems(1) f have "rate_inv old s1" by (rule fire_rate_inv)
  then show ?case using r by (rule Cons.IH)
qed

text \<open>
  Claim C5. In a run without interruption from \<open>start\<close>, at any number of ticks and so also at
  its completion, the rates of the samples recorded by the run are in non-decreasing order
  and each is at most \<open>1200\<close>. The acceleration per word is the positive constant \<open>0.5\<close>.
\<close>

theorem run_rates_monotone:
  assumes "run now now' ts s = Inr s'"
  shows "\<exists>new. sessionData s' = sessionData s @ new \<and> sorted (map sample_wpm new) \<and>
           (\<forall>x\<in>set new. sample_wpm x \<le> 1200)"
proof -
  from assms obtain s1 where st: "start now now' s = Inr s1" and r: "run_ticks ts s1 = Inr s'"
    by (auto simp: run_def split: sum.splits)
  have "rate_inv (sessionData s) (s\<lparr>isPlaying := True, sessionStartTime := now\<rparr>)"
    by (simp add: rate_inv_def)
  moreover have "runLoop now' (s\<lparr>isPlaying := True, sessionStartTime := now\<rparr>) = Inr s1"
    using st by (simp add: start_def)
  ultimately have "rate_inv (sessionData s) s1" by (rule runLoop_rate_inv)
  then have "rate_inv (sessionData s) s'" using r by (rule run_ticks_rate_inv)
  then obtain new where new: "sessionData s' = sessionData s @ new" "sorted (map sample_wpm new)"
    "\<forall>y\<in>set new. sample_wpm y \<le> Math_round (wpm s')" "new \<noteq> [] \<longrightarrow> wpm s' \<le> 1200"
    unfolding rate_inv_def by blast
  have "sample_wpm y \<le> 1200" if "y \<in> set new" for y
  proof -
    from that new(4) have "wpm s' \<le> 1200" by auto
    then have "Math_round (wpm s') \<le> 1200" using Math_round_mono [of "wpm s'" 1200]
      by (simp add: Math_round_1200)
    with new(3) that show ?thesis by fastforce
  qed
  with new(1,2) show ?thesis by blast
qed

theorem run_rates_monotone_witness:
  "\<exists>s'. run 0 1 [200, 400, 600] ex_fresh = Inr s' \<and> \<not> isPlaying s' \<and>
      map sample_wpm (sessionData s') = [301, 301, 302] \<and>
      sorted (map sample_wpm (sessionData s'))"
proof -
  have ev: "map_sum id (\<lambda>s. (isPlaying s, map sample_wpm (sessionData s)))
              (run 0 1 [200, 400, 600] ex_fresh) = Inr (False, [301, 301, 302])"
    by code_simp
  then obtain s' where r: "run 0 1 [200, 400, 600] ex_fresh = Inr s'"
    and p: "\<not> isPlaying s'" and m: "map sample_wpm (sessionData s') = [301, 301, 302]"
    by (cases "run 0 1 [200, 400, 600] ex_fresh") auto
  from run_rates_monotone [OF r] obtain new where
    "sessionData s' = sessionData ex_fresh @ new" and "sorted (map sample_wpm new)"
    by blast
  then have "sorted (map sample_wpm (sessionData s'))" by (simp add: ex_fresh_def)
  with r p m show ?thesis by (intro exI [of _ s'] conjI)
qed

text \<open>
  Every run reaches completion: with a chunk size of at least \<open>1\<close> and as many ticks as words
  left, the run ends stopped, at or past the end of the words, with the report shown.
\<close>

lemma run_ticks_stopped:
  "timer s = None \<Longrightarrow> run_ticks ts s = Inr s"
  by (induction ts) (simp_all add: fire_def)

lemma run_ticks_completes:
  assumes "isPlaying s" and "0 < chunkSize s"
    and "length (words s) - currentIndex s < length ts" and "timer s \<noteq> None"
  shows "\<exists>s'. run_ticks ts s = Inr s' \<and> \<not> isPlaying s' \<and> \<not> reportHidden s' \<and>
           length (words s') \<le> currentIndex s'"
  using assms
proof (induction ts arbitrary: s)
  case Nil
  then show ?case by simp
next
  case (Cons t ts)
  let ?s = "s\<lparr>timer := None\<rparr>"
  have f: "fire t s = runLoop t ?s" using Cons.prems(4) by (auto simp: fire_def)
  show ?case
  proof (cases "currentIndex s < length (words s)")
    case False
    let ?e = "showReport (stop ?s)"
    have r: "runLoop t ?s = Inr ?e"
      using False Cons.prems(1) by (simp add: runLoop_def)
    have "run_ticks ts ?e = Inr ?e"
      by (rule run_ticks_stopped) (simp add: showReport_def stop_def)
    then have "run_ticks (t # ts) s = Inr ?e" by (simp add: f r)
    moreover have "\<not> isPlaying ?e" "\<not> reportHidden ?e" "length (words ?e) \<le> currentIndex ?e"
      using False by (simp_all add: showReport_def stop_def)
    ultimately show ?thesis by blast
  next
    case True
    have h: "isPlaying ?s" "currentIndex ?s < length (words ?s)" "0 < chunkSize ?s"
      using Cons.prems(1,2) True by simp_all
    from runLoop_tick [OF h, of t] obtain s1 where
      r: "runLoop t ?s = Inr s1" and p: "isPlaying s1" and
      c: "chunkSize s1 = chunkSize ?s" and w: "words s1 = words ?s" and
      i: "currentIndex s1 = currentIndex ?s + chunkSize ?s" and
      tm: "timer s1 = Some (60000 / wpm s1 * of_nat (length (next_chunk ?s)) +
                            pause (60000 / wpm s1) (last (next_chunk ?s)))"
      by blast
    have cs: "0 < chunkSize s1" using c Cons.prems(2) by simp
    have less: "length (words s1) - currentIndex s1 < length ts"
      using Cons.prems(2,3) True unfolding w i by simp
    have tm': "timer s1 \<noteq> None" unfolding tm by simp
    from Cons.IH [OF p cs less tm'] show ?thesis by (simp add: f r)
  qed
qed

lemma run_completes:
  assumes "0 < chunkSize s" and "length (words s) - currentIndex s \<le> length ts"
  shows "\<exists>s'. run now now' ts s = Inr s' \<and> \<not> isPlaying s' \<and> \<not> reportHidden s' \<and>
           length (words s') \<le> currentIndex s'"
proof (cases "currentIndex s < length (words s)")
  case False
  let ?s = "s\<lparr>isPlaying := True, sessionStartTime := now\<rparr>"
  let ?e = "showReport (stop ?s)"
  have r: "start now now' s = Inr ?e"
    using False by (simp add: start_def runLoop_def)
  have "run_ticks ts ?e = Inr ?e"
    by (rule run_ticks_stopped) (simp add: showReport_def stop_def)
  then have "run now now' ts s = Inr ?e" by (simp add: run_def r)
  moreover have "\<not> isPlaying ?e" "\<not> reportHidden ?e" "length (words ?e) \<le> currentIndex ?e"
    using False by (simp_all add: showReport_def stop_def)
  ultimately show ?thesis by blast
next
  case True
  let ?s = "s\<lparr>isPlaying := True, sessionStartTime := now\<rparr>"
  have h: "isPlaying ?s" "currentIndex ?s < length (words ?s)" "0 < chunkSize ?s"
    using assms(1) True by simp_all
  from runLoop_tick [OF h, of now'] obtain s1 where
    r: "runLoop now' ?s = Inr s1" and p: "isPlaying s1" and
    c: "chunkSize s1 = chunkSize ?s" and w: "words s1 = words ?s" and
    i: "currentIndex s1 = currentIndex ?s + chunkSize ?s" and
    tm: "timer s1 = Some (60000 / wpm s1 * of_nat (length (next_chunk ?s)) +
                          pause (60000 / wpm s1) (last (next_chunk ?s)))"
    by blast
  have cs: "0 < chunkSize s1" using c assms(1) by simp
  have less: "length (words s1) - currentIndex s1 < length ts"
    using assms True unfolding w i by simp
  have tm': "timer s1 \<noteq> None" unfolding tm by simp
  from run_ticks_completes [OF p cs less tm'] show ?thesis
    by (simp add: run_def start_def r)
qed

end
